theory Spec2Isabelle
  imports Main "HOL-Library.Word"
begin

section \<open>The AIAgent ledger contract (contract.sol)\<close>

text \<open>
  The contract is compiled with Solidity 0.8 (\<open>pragma solidity ^0.8.19\<close>): \<open>uint256\<close> is a
  256-bit word whose \<open>++\<close> is checked (it reverts with \<open>Panic(0x11)\<close> instead of wrapping),
  \<open>address\<close> is a 160-bit word, \<open>string\<close> is a byte string, and a \<open>mapping\<close> is total:
  a key that was never written reads as the zero value of the value type.
\<close>

type_synonym uint256 = "256 word"
type_synonym address = "160 word"

text \<open>\<open>struct Task\<close>; the field \<open>id\<close> is written \<open>id_of\<close>.\<close>

record Task =
  id_of :: uint256
  topic :: string
  result :: string
  requester :: address

text \<open>\<open>event TaskCreated(uint256 id, string topic, address requester)\<close> and
  \<open>event TaskCompleted(uint256 id, string result)\<close>.\<close>

datatype event =
  TaskCreated uint256 string address
| TaskCompleted uint256 string

text \<open>The storage of the contract, and the log of the events it has emitted (oldest first).\<close>

record AIAgent =
  taskCounter :: uint256
  tasks :: "uint256 \<Rightarrow> Task"
  events :: "event list"

text \<open>A call aborts with the message of a failed \<open>require\<close>, or with a panic code.\<close>

datatype error =
  Revert string
| Panic nat

text \<open>The zero value of \<open>Task\<close>, and the contract as deployed.\<close>

definition empty_task :: Task where
  "empty_task = \<lparr>id_of = 0, topic = [], result = [], requester = 0\<rparr>"

definition init :: AIAgent where
  "init = \<lparr>taskCounter = 0, tasks = (\<lambda>_. empty_task), events = []\<rparr>"

text \<open>\<open>taskCounter++\<close> under checked arithmetic: \<open>Panic(0x11)\<close> at \<open>2^256 - 1\<close>.\<close>

definition checked_inc :: "uint256 \<Rightarrow> error + uint256" where
  "checked_inc x = (if unat x + 1 < 2 ^ 256 then Inr (x + 1) else Inl (Panic 17))"

definition emit :: "event \<Rightarrow> AIAgent \<Rightarrow> AIAgent" where
  "emit e s = s\<lparr>events := events s @ [e]\<rparr>"

text \<open>
  \<^verbatim>\<open>
  function createTask(string memory _topic) public {
      taskCounter++;
      tasks[taskCounter] = Task(taskCounter, _topic, "", msg.sender);
      emit TaskCreated(taskCounter, _topic, msg.sender);
  }
  \<close>
  The function returns no value: a successful call yields the new contract state only.
\<close>

definition createTask :: "address \<Rightarrow> string \<Rightarrow> AIAgent \<Rightarrow> error + AIAgent" where
  "createTask sender t s =
     (case checked_inc (taskCounter s) of
        Inl e \<Rightarrow> Inl e
      | Inr c \<Rightarrow>
          let s1 = s\<lparr>taskCounter := c\<rparr>;
              s2 = s1\<lparr>tasks := (tasks s1)
                      (taskCounter s1 :=
                         \<lparr>id_of = taskCounter s1, topic = t, result = [], requester = sender\<rparr>)\<rparr>
          in Inr (emit (TaskCreated (taskCounter s2) t sender) s2))"

text \<open>
  \<^verbatim>\<open>
  function completeTask(uint256 _id, string memory _result) public {
      require(tasks[_id].id != 0, "Task does not exist");
      tasks[_id].result = _result;
      emit TaskCompleted(_id, _result);
  }
  \<close>
\<close>

definition completeTask :: "uint256 \<Rightarrow> string \<Rightarrow> AIAgent \<Rightarrow> error + AIAgent" where
  "completeTask i r s =
     (if id_of (tasks s i) \<noteq> 0
      then let s1 = s\<lparr>tasks := (tasks s)(i := (tasks s i)\<lparr>result := r\<rparr>)\<rparr>
           in Inr (emit (TaskCompleted i r) s1)
      else Inl (Revert ''Task does not exist''))"

text \<open>
  \<^verbatim>\<open>
  function getTask(uint256 _id) public view returns (Task memory) {
      return tasks[_id];
  }
  \<close>
  A view: it reads the mapping and has no \<open>require\<close>, so it has no failing branch.
\<close>

definition getTask :: "uint256 \<Rightarrow> AIAgent \<Rightarrow> error + Task" where
  "getTask i s = Inr (tasks s i)"

subsection \<open>Transactions\<close>

text \<open>
  A transaction is a caller (\<open>msg.sender\<close>) and a call of one of the two state-changing
  functions. A call that aborts is reverted by the EVM: storage and log stay as they were.
\<close>

datatype call =
  CreateTask string
| CompleteTask uint256 string

fun apply_call :: "address \<times> call \<Rightarrow> AIAgent \<Rightarrow> error + AIAgent" where
  "apply_call (sender, CreateTask t) s = createTask sender t s"
| "apply_call (sender, CompleteTask i r) s = completeTask i r s"

definition step :: "address \<times> call \<Rightarrow> AIAgent \<Rightarrow> AIAgent" where
  "step tx s = (case apply_call tx s of Inl e \<Rightarrow> s | Inr s' \<Rightarrow> s')"

fun exec :: "(address \<times> call) list \<Rightarrow> AIAgent \<Rightarrow> AIAgent" where
  "exec [] s = s"
| "exec (tx # txs) s = exec txs (step tx s)"

text \<open>The states the deployed contract can be in.\<close>

inductive reachable :: "AIAgent \<Rightarrow> bool" where
  reachable_init: "reachable init"
| reachable_create: "reachable s \<Longrightarrow> createTask sender t s = Inr s' \<Longrightarrow> reachable s'"
| reachable_complete: "reachable s \<Longrightarrow> completeTask i r s = Inr s' \<Longrightarrow> reachable s'"

subsection \<open>What the log says about a task\<close>

text \<open>The ids of the \<open>TaskCreated\<close> events, in the order of emission: one per
  \<open>createTask\<close> call that took effect.\<close>

fun created_ids :: "event list \<Rightarrow> uint256 list" where
  "created_ids [] = []"
| "created_ids (TaskCreated i t a # es) = i # created_ids es"
| "created_ids (TaskCompleted i r # es) = created_ids es"

text \<open>A task with id \<open>i\<close> has been created.\<close>

definition created :: "AIAgent \<Rightarrow> uint256 \<Rightarrow> bool" where
  "created s i = (i \<in> set (created_ids (events s)))"

text \<open>The derived status of the specification: a task is pending while its result is empty.\<close>

datatype status = Pending | Completed

definition status_of :: "Task \<Rightarrow> status" where
  "status_of t = (if result t = [] then Pending else Completed)"

text \<open>The number of \<open>createTask\<close> calls in a list of transactions.\<close>

fun creates :: "(address \<times> call) list \<Rightarrow> nat" where
  "creates [] = 0"
| "creates ((a, CreateTask t) # txs) = Suc (creates txs)"
| "creates ((a, CompleteTask i r) # txs) = creates txs"

text \<open>The ids \<open>1, \<dots>, n\<close> as \<open>uint256\<close> values.\<close>

definition ids_upto :: "nat \<Rightarrow> uint256 list" where
  "ids_upto n = map of_nat [1..<Suc n]"

text \<open>The topics supplied by the \<open>createTask\<close> calls of a list of transactions, in order.\<close>

fun supplied :: "(address \<times> call) list \<Rightarrow> string list" where
  "supplied [] = []"
| "supplied ((a, CreateTask t) # txs) = t # supplied txs"
| "supplied ((a, CompleteTask i r) # txs) = supplied txs"

subsection \<open>The Query Service\<close>

text \<open>The failures of a query: the task is not on the ledger, or the ledger read itself
  failed.\<close>

datatype query_error =
  NotFound
| LedgerFailure error

text \<open>Modelled from the spec: the Query Service's \<open>getTask\<close> (section 4.4), whose code is not
  among the sources. "\<open>getTask(id)\<close>: returns the Task record; fails with \<open>NotFound\<close> if
  \<open>id\<close> is 0 or unknown", as a pass-through read of the ledger (section 4.4) that tells an
  unknown task by "checking \<open>id != 0\<close> in the returned record, a caller responsibility"
  (section 6).
\<close>

definition query_getTask :: "uint256 \<Rightarrow> AIAgent \<Rightarrow> query_error + Task" where
  "query_getTask i s =
     (case getTask i s of
        Inl e \<Rightarrow> Inl (LedgerFailure e)
      | Inr t \<Rightarrow> if id_of t \<noteq> 0 then Inr t else Inl NotFound)"

section \<open>The invariant of the storage\<close>

definition ledger_inv :: "AIAgent \<Rightarrow> bool" where
  "ledger_inv s \<longleftrightarrow>
     created_ids (events s) = ids_upto (unat (taskCounter s)) \<and>
     (\<forall>i. (i \<noteq> 0 \<and> i \<le> taskCounter s \<longrightarrow>
             id_of (tasks s i) = i \<and>
             TaskCreated i (topic (tasks s i)) (requester (tasks s i)) \<in> set (events s)) \<and>
          (i = 0 \<or> taskCounter s < i \<longrightarrow> tasks s i = empty_task))"

lemma created_ids_append [simp]:
  "created_ids (es @ fs) = created_ids es @ created_ids fs"
  by (induction es rule: created_ids.induct) simp_all

subsection \<open>Facts about 256-bit counters\<close>

lemma inc_no_wrap: "unat (x :: uint256) + 1 < 2 ^ 256 \<longleftrightarrow> x \<noteq> - 1"
proof -
  have "unat x + unat (1 :: uint256) < 2 ^ LENGTH(256) \<longleftrightarrow> x \<le> x + 1"
    by (rule no_olen_add_nat [symmetric])
  moreover have "x \<le> x + 1 \<longleftrightarrow> x \<noteq> - 1"
  proof
    assume le: "x \<le> x + 1"
    show "x \<noteq> - 1"
    proof
      assume "x = - 1"
      then have "x + 1 \<le> x" by (simp only: inc_less_eq_self_iff_eq)
      with le have "x + 1 = x" by (rule order_antisym [rotated])
      then show False by simp
    qed
  next
    assume "x \<noteq> - 1"
    then have "\<not> x + 1 \<le> x" by (simp only: inc_less_eq_self_iff_eq not_False_eq_True)
    then show "x \<le> x + 1" by (simp only: not_le less_imp_le)
  qed
  ultimately show ?thesis by simp
qed

lemma checked_inc_Inr:
  "checked_inc x = Inr c \<longleftrightarrow> x \<noteq> - 1 \<and> c = x + 1"
  unfolding checked_inc_def inc_no_wrap by auto

lemma checked_inc_Inl:
  "checked_inc x = Inl e \<longleftrightarrow> x = - 1 \<and> e = Panic 17"
  unfolding checked_inc_def inc_no_wrap by auto

lemma unat_inc: "(x :: uint256) \<noteq> - 1 \<Longrightarrow> unat (x + 1) = Suc (unat x)"
  using unat_add_lem [of x 1] inc_no_wrap [of x] by simp

lemma inc_nonzero: "(x :: uint256) \<noteq> - 1 \<Longrightarrow> x + 1 \<noteq> 0"
  using max_word_wrap [of x] by blast

lemma less_inc: "(x :: uint256) \<noteq> - 1 \<Longrightarrow> x < x + 1"
  by (simp add: word_less_nat_alt unat_inc)

lemma le_inc_iff: "(x :: uint256) \<noteq> - 1 \<Longrightarrow> i \<le> x + 1 \<longleftrightarrow> i \<le> x \<or> i = x + 1"
  by (auto simp: word_le_nat_alt unat_inc word_unat_eq_iff)

lemma ids_upto_Suc: "ids_upto (Suc n) = ids_upto n @ [of_nat (Suc n)]"
  by (simp add: ids_upto_def)

lemma of_nat_Suc_unat: "(of_nat (Suc (unat x)) :: uint256) = x + 1"
  by simp

lemma set_ids_upto: "i \<in> set (ids_upto (unat (c :: uint256))) \<longleftrightarrow> i \<noteq> 0 \<and> i \<le> c"
proof
  assume "i \<in> set (ids_upto (unat c))"
  then obtain k where k: "i = of_nat k" "1 \<le> k" "k \<le> unat c"
    by (auto simp: ids_upto_def)
  then have "unat i = k" by (simp add: le_unat_uoi)
  with k show "i \<noteq> 0 \<and> i \<le> c"
    by (auto simp: word_le_nat_alt)
next
  assume a: "i \<noteq> 0 \<and> i \<le> c"
  then have "1 \<le> unat i" "unat i \<le> unat c"
    by (simp_all add: word_le_nat_alt unat_gt_0 Suc_le_eq)
  then have "unat i \<in> set [1..<Suc (unat c)]" by auto
  moreover have "i = of_nat (unat i)" by simp
  ultimately have "i \<in> of_nat ` set [1..<Suc (unat c)]" by (rule image_eqI [rotated])
  then show "i \<in> set (ids_upto (unat c))" by (simp only: ids_upto_def set_map)
qed

lemma distinct_ids_upto: "distinct (ids_upto (unat (c :: uint256)))"
proof -
  have "inj_on (of_nat :: nat \<Rightarrow> uint256) (set [1..<Suc (unat c)])"
  proof (rule inj_onI)
    fix x y assume "x \<in> set [1..<Suc (unat c)]" "y \<in> set [1..<Suc (unat c)]"
      and e: "(of_nat x :: uint256) = of_nat y"
    then have "x \<le> unat c" "y \<le> unat c" by auto
    then have ux: "unat (of_nat x :: uint256) = x" and uy: "unat (of_nat y :: uint256) = y"
      by (simp_all add: le_unat_uoi)
    have "x = unat (of_nat x :: uint256)" by (rule ux [symmetric])
    also have "\<dots> = unat (of_nat y :: uint256)" using e by (rule arg_cong)
    also have "\<dots> = y" by (rule uy)
    finally show "x = y" .
  qed
  then show ?thesis by (simp add: ids_upto_def distinct_map)
qed

lemma length_ids_upto: "length (ids_upto n) = n"
  by (simp add: ids_upto_def)

subsection \<open>The two outcomes of each function\<close>

lemma createTask_Inr:
  "taskCounter s \<noteq> - 1 \<Longrightarrow>
   createTask a t s =
     Inr (s\<lparr>taskCounter := taskCounter s + 1,
            tasks := (tasks s)(taskCounter s + 1 :=
                       \<lparr>id_of = taskCounter s + 1, topic = t, result = [], requester = a\<rparr>),
            events := events s @ [TaskCreated (taskCounter s + 1) t a]\<rparr>)"
proof -
  assume "taskCounter s \<noteq> - 1"
  then have "checked_inc (taskCounter s) = Inr (taskCounter s + 1)"
    by (simp add: checked_inc_Inr)
  then show ?thesis by (simp add: createTask_def emit_def Let_def)
qed

lemma createTask_Inl:
  "taskCounter s = - 1 \<Longrightarrow> createTask a t s = Inl (Panic 17)"
proof -
  assume "taskCounter s = - 1"
  then have "checked_inc (taskCounter s) = Inl (Panic 17)"
    by (simp add: checked_inc_Inl)
  then show ?thesis by (simp add: createTask_def)
qed

lemma createTask_cases:
  "createTask a t s = Inl e \<longleftrightarrow> taskCounter s = - 1 \<and> e = Panic 17"
  by (cases "taskCounter s = - 1") (auto simp: createTask_Inr createTask_Inl)

lemma completeTask_Inr:
  "id_of (tasks s i) \<noteq> 0 \<Longrightarrow>
   completeTask i r s =
     Inr (s\<lparr>tasks := (tasks s)(i := (tasks s i)\<lparr>result := r\<rparr>),
            events := events s @ [TaskCompleted i r]\<rparr>)"
  by (simp add: completeTask_def emit_def)

lemma completeTask_Inl:
  "id_of (tasks s i) = 0 \<Longrightarrow> completeTask i r s = Inl (Revert ''Task does not exist'')"
  by (simp add: completeTask_def)

subsection \<open>The invariant holds in every reachable state\<close>

lemma ledger_inv_ids:
  "ledger_inv s \<Longrightarrow> created_ids (events s) = ids_upto (unat (taskCounter s))"
  unfolding ledger_inv_def by blast

lemma ledger_inv_in:
  "ledger_inv s \<Longrightarrow> i \<noteq> 0 \<Longrightarrow> i \<le> taskCounter s \<Longrightarrow>
   id_of (tasks s i) = i \<and>
   TaskCreated i (topic (tasks s i)) (requester (tasks s i)) \<in> set (events s)"
  unfolding ledger_inv_def by blast

lemma ledger_inv_out:
  "ledger_inv s \<Longrightarrow> i = 0 \<or> taskCounter s < i \<Longrightarrow> tasks s i = empty_task"
  unfolding ledger_inv_def by blast

lemma ledger_inv_init: "ledger_inv init"
  by (simp add: ledger_inv_def init_def ids_upto_def)

lemma ledger_inv_createTask:
  assumes inv: "ledger_inv s" and ok: "createTask a t s = Inr s'"
  shows "ledger_inv s'"
proof -
  from ok have nm: "taskCounter s \<noteq> - 1"
    by (auto simp: createTask_Inl)
  let ?c = "taskCounter s + 1"
  from ok nm have s': "taskCounter s' = ?c"
    "tasks s' = (tasks s)(?c := \<lparr>id_of = ?c, topic = t, result = [], requester = a\<rparr>)"
    "events s' = events s @ [TaskCreated ?c t a]"
    by (auto simp: createTask_Inr)
  have un: "unat ?c = Suc (unat (taskCounter s))" using nm by (rule unat_inc)
  have nz: "?c \<noteq> 0" using nm by (rule inc_nonzero)
  have lt: "taskCounter s < ?c" using nm by (rule less_inc)
  from inv have ids: "created_ids (events s) = ids_upto (unat (taskCounter s))"
    by (rule ledger_inv_ids)
  have 1: "created_ids (events s') = ids_upto (unat (taskCounter s'))"
    by (simp only: s' un ids_upto_Suc of_nat_Suc_unat created_ids_append ids created_ids.simps)
  have 2: "id_of (tasks s' i) = i \<and>
           TaskCreated i (topic (tasks s' i)) (requester (tasks s' i)) \<in> set (events s')"
    if "i \<noteq> 0" "i \<le> taskCounter s'" for i
  proof (cases "i = ?c")
    case True
    then show ?thesis by (simp add: s')
  next
    case False
    with that have "i \<le> taskCounter s" by (simp add: s' le_inc_iff [OF nm])
    with inv that have "id_of (tasks s i) = i \<and>
           TaskCreated i (topic (tasks s i)) (requester (tasks s i)) \<in> set (events s)"
      by (intro ledger_inv_in)
    with False show ?thesis by (simp add: s')
  qed
  have 3: "tasks s' i = empty_task" if "i = 0 \<or> taskCounter s' < i" for i
  proof -
    from that lt nz have "i \<noteq> ?c" by (auto simp: s')
    moreover from that lt have "i = 0 \<or> taskCounter s < i" by (auto simp: s')
    with inv have "tasks s i = empty_task" by (rule ledger_inv_out)
    ultimately show ?thesis by (simp add: s')
  qed
  from 1 2 3 show ?thesis unfolding ledger_inv_def by blast
qed

lemma ledger_inv_completeTask:
  assumes inv: "ledger_inv s" and ok: "completeTask i r s = Inr s'"
  shows "ledger_inv s'"
proof -
  from ok have ex: "id_of (tasks s i) \<noteq> 0"
    by (auto simp: completeTask_Inl)
  from ok ex have s': "taskCounter s' = taskCounter s"
    "tasks s' = (tasks s)(i := (tasks s i)\<lparr>result := r\<rparr>)"
    "events s' = events s @ [TaskCompleted i r]"
    by (auto simp: completeTask_Inr)
  from inv have 1: "created_ids (events s') = ids_upto (unat (taskCounter s'))"
    by (simp add: s' ledger_inv_ids)
  have 2: "id_of (tasks s' j) = j \<and>
           TaskCreated j (topic (tasks s' j)) (requester (tasks s' j)) \<in> set (events s')"
    if "j \<noteq> 0" "j \<le> taskCounter s'" for j
  proof -
    from that have "j \<le> taskCounter s" by (simp add: s')
    with inv that have "id_of (tasks s j) = j \<and>
           TaskCreated j (topic (tasks s j)) (requester (tasks s j)) \<in> set (events s)"
      by (intro ledger_inv_in)
    then show ?thesis by (auto simp: s')
  qed
  have 3: "tasks s' j = empty_task" if "j = 0 \<or> taskCounter s' < j" for j
  proof -
    from that have "j = 0 \<or> taskCounter s < j" by (simp add: s')
    with inv have e: "tasks s j = empty_task" by (rule ledger_inv_out)
    with ex have "j \<noteq> i" by (auto simp: empty_task_def)
    with e show ?thesis by (simp add: s')
  qed
  from 1 2 3 show ?thesis unfolding ledger_inv_def by blast
qed

lemma reachable_inv: "reachable s \<Longrightarrow> ledger_inv s"
  by (induction rule: reachable.induct)
    (auto intro: ledger_inv_init ledger_inv_createTask ledger_inv_completeTask)

lemma reachable_step: "reachable s \<Longrightarrow> reachable (step tx s)"
proof -
  assume r: "reachable s"
  obtain a c where tx: "tx = (a, c)" by (cases tx)
  show ?thesis
  proof (cases c)
    case (CreateTask t)
    with r tx show ?thesis
      by (auto simp: step_def split: sum.splits intro: reachable_create)
  next
    case (CompleteTask i r')
    with r tx show ?thesis
      by (auto simp: step_def split: sum.splits intro: reachable_complete)
  qed
qed

lemma reachable_exec: "reachable s \<Longrightarrow> reachable (exec txs s)"
  by (induction txs arbitrary: s) (simp_all add: reachable_step)

lemma created_iff_range:
  "ledger_inv s \<Longrightarrow> created s i \<longleftrightarrow> i \<noteq> 0 \<and> i \<le> taskCounter s"
  by (simp add: created_def ledger_inv_ids set_ids_upto)

lemma created_iff_id:
  assumes "ledger_inv s"
  shows "created s i \<longleftrightarrow> id_of (tasks s i) \<noteq> 0"
proof (cases "i \<noteq> 0 \<and> i \<le> taskCounter s")
  case True
  with assms have "id_of (tasks s i) = i" by (simp add: ledger_inv_in)
  with True assms show ?thesis by (simp add: created_iff_range)
next
  case False
  then have "i = 0 \<or> taskCounter s < i" by auto
  with assms have "tasks s i = empty_task" by (rule ledger_inv_out)
  with False assms show ?thesis by (simp add: created_iff_range empty_task_def)
qed

subsection \<open>One transaction, and many\<close>

lemma step_create:
  "step (a, CreateTask t) s =
     (if taskCounter s = - 1 then s
      else s\<lparr>taskCounter := taskCounter s + 1,
             tasks := (tasks s)(taskCounter s + 1 :=
                        \<lparr>id_of = taskCounter s + 1, topic = t, result = [], requester = a\<rparr>),
             events := events s @ [TaskCreated (taskCounter s + 1) t a]\<rparr>)"
  by (simp add: step_def createTask_Inr createTask_Inl)

lemma step_complete:
  "step (a, CompleteTask i r) s =
     (if id_of (tasks s i) = 0 then s
      else s\<lparr>tasks := (tasks s)(i := (tasks s i)\<lparr>result := r\<rparr>),
             events := events s @ [TaskCompleted i r]\<rparr>)"
  by (simp add: step_def completeTask_Inr completeTask_Inl)

lemma created_not_next:
  assumes "ledger_inv s" "created s i" "taskCounter s \<noteq> - 1"
  shows "i \<noteq> taskCounter s + 1"
proof
  assume "i = taskCounter s + 1"
  moreover from assms(1,2) have "i \<le> taskCounter s" by (simp add: created_iff_range)
  moreover from assms(3) have "taskCounter s < taskCounter s + 1" by (rule less_inc)
  ultimately show False by simp
qed

lemma step_frame:
  assumes inv: "ledger_inv s" and c: "created s i"
  shows "created (step tx s) i \<and>
         id_of (tasks (step tx s) i) = id_of (tasks s i) \<and>
         topic (tasks (step tx s) i) = topic (tasks s i) \<and>
         requester (tasks (step tx s) i) = requester (tasks s i)"
proof -
  obtain a cl where tx: "tx = (a, cl)" by (cases tx)
  show ?thesis
  proof (cases cl)
    case (CreateTask t)
    show ?thesis
    proof (cases "taskCounter s = - 1")
      case True
      with c show ?thesis by (simp add: tx CreateTask step_create)
    next
      case False
      with inv c have "i \<noteq> taskCounter s + 1" by (intro created_not_next)
      with False c show ?thesis by (simp add: tx CreateTask step_create created_def)
    qed
  next
    case (CompleteTask j r)
    with c show ?thesis by (simp add: tx step_complete created_def)
  qed
qed

lemma step_result:
  assumes inv: "ledger_inv s" and c: "created s i"
  shows "result (tasks (step (a, cl) s) i) =
           (case cl of
              CreateTask t \<Rightarrow> result (tasks s i)
            | CompleteTask j r \<Rightarrow> if j = i then r else result (tasks s i))"
proof (cases cl)
  case (CreateTask t)
  show ?thesis
  proof (cases "taskCounter s = - 1")
    case True
    then show ?thesis by (simp add: CreateTask step_create)
  next
    case False
    with inv c have "i \<noteq> taskCounter s + 1" by (intro created_not_next)
    with False show ?thesis by (simp add: CreateTask step_create)
  qed
next
  case (CompleteTask j r)
  from inv c have "id_of (tasks s i) \<noteq> 0" by (simp add: created_iff_id)
  then show ?thesis by (auto simp: CompleteTask step_complete)
qed

lemma exec_frame:
  "reachable s \<Longrightarrow> created s i \<Longrightarrow>
   created (exec txs s) i \<and>
   id_of (tasks (exec txs s) i) = id_of (tasks s i) \<and>
   topic (tasks (exec txs s) i) = topic (tasks s i) \<and>
   requester (tasks (exec txs s) i) = requester (tasks s i)"
proof (induction txs arbitrary: s)
  case Nil
  then show ?case by simp
next
  case (Cons tx txs)
  from Cons.prems have inv: "ledger_inv s" by (simp add: reachable_inv)
  note f = step_frame [OF inv Cons.prems(2), of tx]
  from Cons.prems(1) have "reachable (step tx s)" by (rule reachable_step)
  moreover from f have "created (step tx s) i" by blast
  ultimately have "created (exec txs (step tx s)) i \<and>
     id_of (tasks (exec txs (step tx s)) i) = id_of (tasks (step tx s) i) \<and>
     topic (tasks (exec txs (step tx s)) i) = topic (tasks (step tx s) i) \<and>
     requester (tasks (exec txs (step tx s)) i) = requester (tasks (step tx s) i)"
    by (rule Cons.IH)
  with f show ?case by simp
qed

lemma exec_stays_completed:
  "reachable s \<Longrightarrow> created s i \<Longrightarrow> result (tasks s i) \<noteq> [] \<Longrightarrow>
   \<forall>a. (a, CompleteTask i []) \<notin> set txs \<Longrightarrow>
   result (tasks (exec txs s) i) \<noteq> []"
proof (induction txs arbitrary: s)
  case Nil
  then show ?case by simp
next
  case (Cons tx txs)
  obtain a cl where tx: "tx = (a, cl)" by (cases tx)
  from Cons.prems have inv: "ledger_inv s" by (simp add: reachable_inv)
  from Cons.prems(4) have ne: "cl \<noteq> CompleteTask i []" by (auto simp: tx)
  have "result (tasks (step tx s) i) \<noteq> []"
    using step_result [OF inv Cons.prems(2), of a cl] Cons.prems(3) ne
    by (auto simp: tx split: call.splits if_splits)
  moreover from Cons.prems(1) have "reachable (step tx s)" by (rule reachable_step)
  moreover from step_frame [OF inv Cons.prems(2), of tx] have "created (step tx s) i" by blast
  moreover from Cons.prems(4) have "\<forall>a. (a, CompleteTask i []) \<notin> set txs" by simp
  ultimately have "result (tasks (exec txs (step tx s)) i) \<noteq> []"
    by (intro Cons.IH)
  then show ?case by simp
qed

lemma exec_counter:
  "unat (taskCounter s) + creates txs < 2 ^ 256 \<Longrightarrow>
   unat (taskCounter (exec txs s)) = unat (taskCounter s) + creates txs"
proof (induction txs arbitrary: s rule: creates.induct)
  case 1
  then show ?case by simp
next
  case (2 a t txs)
  from "2.prems" have lt: "Suc (unat (taskCounter s)) + creates txs < 2 ^ 256" by simp
  then have "unat (taskCounter s) + 1 < 2 ^ 256" by simp
  then have nm: "taskCounter s \<noteq> - 1" by (rule inc_no_wrap [THEN iffD1])
  then have u: "unat (taskCounter (step (a, CreateTask t) s)) = Suc (unat (taskCounter s))"
    by (simp add: step_create unat_inc)
  with lt have "unat (taskCounter (step (a, CreateTask t) s)) + creates txs < 2 ^ 256"
    by (simp only:)
  then have "unat (taskCounter (exec txs (step (a, CreateTask t) s))) =
      unat (taskCounter (step (a, CreateTask t) s)) + creates txs"
    by (rule "2.IH")
  with u show ?case by simp
next
  case (3 a i r txs)
  have u: "taskCounter (step (a, CompleteTask i r) s) = taskCounter s"
    by (simp add: step_complete)
  with "3.prems" have "unat (taskCounter (step (a, CompleteTask i r) s)) + creates txs < 2 ^ 256"
    by simp
  then have "unat (taskCounter (exec txs (step (a, CompleteTask i r) s))) =
      unat (taskCounter (step (a, CompleteTask i r) s)) + creates txs"
    by (rule "3.IH")
  with u show ?case by simp
qed

lemma counter_below_max:
  assumes "creates txs < 2 ^ 256 - 1"
  shows "taskCounter (exec txs init) \<noteq> - 1"
proof -
  have z: "unat (taskCounter init) = 0" by (simp add: init_def)
  from assms have "unat (taskCounter init) + creates txs < 2 ^ 256" by (simp add: z)
  then have "unat (taskCounter (exec txs init)) = unat (taskCounter init) + creates txs"
    by (rule exec_counter)
  with assms have "unat (taskCounter (exec txs init)) + 1 < 2 ^ 256" by (simp add: z)
  then show ?thesis by (rule inc_no_wrap [THEN iffD1])
qed

lemma exec_supplied:
  "reachable s \<Longrightarrow> unat (taskCounter s) + creates txs < 2 ^ 256 \<Longrightarrow> k < creates txs \<Longrightarrow>
   created (exec txs s) (of_nat (unat (taskCounter s) + Suc k)) \<and>
   topic (tasks (exec txs s) (of_nat (unat (taskCounter s) + Suc k))) = supplied txs ! k"
proof (induction txs arbitrary: s k rule: creates.induct)
  case 1
  then show ?case by simp
next
  case (2 a t txs)
  let ?s1 = "step (a, CreateTask t) s"
  from "2.prems"(2) have lt: "Suc (unat (taskCounter s)) + creates txs < 2 ^ 256" by simp
  then have "unat (taskCounter s) + 1 < 2 ^ 256" by simp
  then have nm: "taskCounter s \<noteq> - 1" by (rule inc_no_wrap [THEN iffD1])
  have r1: "reachable ?s1" using "2.prems"(1) by (rule reachable_step)
  have c1: "taskCounter ?s1 = taskCounter s + 1" using nm by (simp add: step_create)
  have u1: "unat (taskCounter ?s1) = Suc (unat (taskCounter s))"
    by (simp only: c1 unat_inc [OF nm])
  show ?case
  proof (cases k)
    case 0
    have i: "(of_nat (unat (taskCounter s) + Suc 0) :: uint256) = taskCounter ?s1"
      by (simp add: c1)
    have cr: "created ?s1 (taskCounter ?s1)" using nm by (simp add: step_create created_def)
    have tp: "topic (tasks ?s1 (taskCounter ?s1)) = t" using nm by (simp add: step_create)
    from exec_frame [OF r1 cr, of txs] tp
    have "created (exec txs ?s1) (taskCounter ?s1) \<and>
          topic (tasks (exec txs ?s1) (taskCounter ?s1)) = t" by simp
    then show ?thesis by (simp only: 0 i exec.simps supplied.simps nth_Cons_0)
  next
    case (Suc k')
    with "2.prems"(3) have k': "k' < creates txs" by simp
    from lt have "unat (taskCounter ?s1) + creates txs < 2 ^ 256" by (simp only: u1)
    with r1 have "created (exec txs ?s1) (of_nat (unat (taskCounter ?s1) + Suc k')) \<and>
      topic (tasks (exec txs ?s1) (of_nat (unat (taskCounter ?s1) + Suc k'))) = supplied txs ! k'"
      using k' by (rule "2.IH")
    moreover have "unat (taskCounter ?s1) + Suc k' = unat (taskCounter s) + Suc k"
      by (simp add: u1 Suc)
    ultimately show ?thesis by (simp only: Suc exec.simps supplied.simps nth_Cons_Suc)
  qed
next
  case (3 a i r txs)
  let ?s1 = "step (a, CompleteTask i r) s"
  have r1: "reachable ?s1" using "3.prems"(1) by (rule reachable_step)
  have c1: "taskCounter ?s1 = taskCounter s" by (simp add: step_complete)
  from "3.prems"(2) have "unat (taskCounter ?s1) + creates txs < 2 ^ 256" by (simp add: c1)
  moreover from "3.prems"(3) have "k < creates txs" by simp
  ultimately have "created (exec txs ?s1) (of_nat (unat (taskCounter ?s1) + Suc k)) \<and>
      topic (tasks (exec txs ?s1) (of_nat (unat (taskCounter ?s1) + Suc k))) = supplied txs ! k"
    using r1 by (intro "3.IH")
  then show ?case by (simp only: c1 exec.simps supplied.simps)
qed

section \<open>Concrete runs\<close>

text \<open>The equations that evaluate a run of the contract on concrete transactions.\<close>

lemmas run_simps =
  step_def createTask_def completeTask_def checked_inc_def emit_def init_def
  empty_task_def created_def Let_def

section \<open>The ledger operations\<close>

text \<open>
  C1. In every reachable state, for every id and result string, \<open>completeTask\<close> fails with
  the message "Task does not exist" exactly when the id is 0 or no task with that id has been
  created, and that is its only failure; otherwise it succeeds, sets the result of that task
  to the given string and emits \<open>TaskCompleted(id, result)\<close>.
\<close>

theorem completeTask_fails_iff_not_created:
  assumes "reachable s"
  shows "(completeTask i r s = Inl (Revert ''Task does not exist'') \<longleftrightarrow> i = 0 \<or> \<not> created s i) \<and>
         (\<forall>e. completeTask i r s = Inl e \<longrightarrow> e = Revert ''Task does not exist'') \<and>
         (i \<noteq> 0 \<and> created s i \<longrightarrow>
            (\<exists>s'. completeTask i r s = Inr s' \<and>
                  tasks s' i = (tasks s i)\<lparr>result := r\<rparr> \<and>
                  result (tasks s' i) = r \<and>
                  events s' = events s @ [TaskCompleted i r]))"
proof -
  from assms have inv: "ledger_inv s" by (rule reachable_inv)
  have c: "created s i \<longleftrightarrow> id_of (tasks s i) \<noteq> 0"
    using inv by (rule created_iff_id)
  have z: "\<not> created s 0"
    using inv by (simp add: created_iff_range)
  show ?thesis
  proof (cases "id_of (tasks s i) = 0")
    case True
    with c z show ?thesis by (auto simp: completeTask_Inl)
  next
    case False
    with c z show ?thesis by (auto simp: completeTask_Inr)
  qed
qed

text \<open>After one \<open>createTask\<close>: ids 0 and 2 are rejected, id 1 is completed.\<close>

theorem completeTask_fails_iff_not_created_witness:
  "reachable (exec [(5, CreateTask ''ai'')] init) \<and>
   completeTask 0 ''done'' (exec [(5, CreateTask ''ai'')] init) = Inl (Revert ''Task does not exist'') \<and>
   completeTask 2 ''done'' (exec [(5, CreateTask ''ai'')] init) = Inl (Revert ''Task does not exist'') \<and>
   created (exec [(5, CreateTask ''ai'')] init) 1 \<and>
   (\<exists>s'. completeTask 1 ''done'' (exec [(5, CreateTask ''ai'')] init) = Inr s' \<and>
         result (tasks s' 1) = ''done'' \<and>
         events s' = [TaskCreated 1 ''ai'' 5, TaskCompleted 1 ''done''])"
proof -
  let ?s = "exec [(5, CreateTask ''ai'')] init"
  have r: "reachable ?s" by (rule reachable_exec [OF reachable_init])
  have c: "created ?s 1" "\<not> created ?s 2" "events ?s = [TaskCreated 1 ''ai'' 5]"
    by (simp_all add: run_simps)
  have n: "(1 :: uint256) \<noteq> 0" by simp
  note T = completeTask_fails_iff_not_created [OF r]
  have f0: "completeTask 0 ''done'' ?s = Inl (Revert ''Task does not exist'')"
    using T [of 0 "''done''"] by blast
  have f2: "completeTask 2 ''done'' ?s = Inl (Revert ''Task does not exist'')"
    using T [of 2 "''done''"] c(2) by blast
  have "\<exists>s'. completeTask 1 ''done'' ?s = Inr s' \<and> result (tasks s' 1) = ''done'' \<and>
          events s' = events ?s @ [TaskCompleted 1 ''done'']"
    using T [of 1 "''done''"] c(1) n by blast
  then have ok: "\<exists>s'. completeTask 1 ''done'' ?s = Inr s' \<and> result (tasks s' 1) = ''done'' \<and>
          events s' = [TaskCreated 1 ''ai'' 5, TaskCompleted 1 ''done'']"
    by (simp only: c(3) append.simps)
  from r f0 f2 c(1) ok show ?thesis by (intro conjI)
qed

text \<open>
  C2. In every reachable state no task with id 0 exists, and with \<open>n\<close> the number of
  \<open>createTask\<close> calls that have taken effect (one \<open>TaskCreated\<close> event each), the ids
  handed out are, in order, exactly \<open>1, \<dots>, n\<close>: \<open>taskCounter = n\<close>, \<open>tasks[i].id = i\<close>
  for \<open>1 \<le> i \<le> n\<close>, no other slot holds a task, and no id is handed out twice. Every
  further \<open>createTask\<close> call raises the counter by one, as long as it stays below \<open>2^256\<close>.
\<close>

theorem task_ids_dense:
  assumes "reachable s"
  shows "tasks s 0 = empty_task \<and> id_of (tasks s 0) = 0 \<and> \<not> created s 0 \<and>
         created_ids (events s) = ids_upto (unat (taskCounter s)) \<and>
         length (created_ids (events s)) = unat (taskCounter s) \<and>
         distinct (created_ids (events s)) \<and>
         (\<forall>i. 1 \<le> unat i \<and> unat i \<le> unat (taskCounter s) \<longrightarrow>
              created s i \<and> id_of (tasks s i) = i) \<and>
         (\<forall>i. id_of (tasks s i) \<noteq> 0 \<longrightarrow> 1 \<le> unat i \<and> unat i \<le> unat (taskCounter s)) \<and>
         (\<forall>txs. unat (taskCounter s) + creates txs < 2 ^ 256 \<longrightarrow>
              unat (taskCounter (exec txs s)) = unat (taskCounter s) + creates txs)"
proof -
  from assms have inv: "ledger_inv s" by (rule reachable_inv)
  have rng: "i \<noteq> 0 \<and> i \<le> taskCounter s \<longleftrightarrow> 1 \<le> unat i \<and> unat i \<le> unat (taskCounter s)" for i
    by (simp add: word_le_nat_alt unat_gt_0 Suc_le_eq)
  have z: "tasks s 0 = empty_task" using inv by (simp add: ledger_inv_out)
  then have z': "id_of (tasks s 0) = 0" by (simp add: empty_task_def)
  have nz: "\<not> created s 0" using inv by (simp add: created_iff_range)
  have ids: "created_ids (events s) = ids_upto (unat (taskCounter s))"
    using inv by (rule ledger_inv_ids)
  have len: "length (created_ids (events s)) = unat (taskCounter s)"
    by (simp only: ids length_ids_upto)
  have dist: "distinct (created_ids (events s))"
    by (simp only: ids distinct_ids_upto)
  have a: "created s i \<and> id_of (tasks s i) = i"
    if "1 \<le> unat i \<and> unat i \<le> unat (taskCounter s)" for i
  proof -
    from that have "i \<noteq> 0 \<and> i \<le> taskCounter s" by (simp only: rng)
    with inv show ?thesis by (simp add: created_iff_range ledger_inv_in)
  qed
  have b: "1 \<le> unat i \<and> unat i \<le> unat (taskCounter s)" if "id_of (tasks s i) \<noteq> 0" for i
  proof -
    from that inv have "created s i" by (simp add: created_iff_id)
    with inv have "i \<noteq> 0 \<and> i \<le> taskCounter s" by (simp add: created_iff_range)
    then show ?thesis by (simp only: rng)
  qed
  from z z' nz ids len dist a b exec_counter [of s] show ?thesis by blast
qed

text \<open>After two \<open>createTask\<close> calls the ids are 1 and 2; a third call makes the counter 3.\<close>

theorem task_ids_dense_witness:
  "reachable (exec [(5, CreateTask ''ai''), (6, CreateTask ''web3'')] init) \<and>
   unat (taskCounter (exec [(5, CreateTask ''ai''), (6, CreateTask ''web3'')] init)) = 2 \<and>
   created_ids (events (exec [(5, CreateTask ''ai''), (6, CreateTask ''web3'')] init)) = [1, 2] \<and>
   id_of (tasks (exec [(5, CreateTask ''ai''), (6, CreateTask ''web3'')] init) 2) = 2 \<and>
   created (exec [(5, CreateTask ''ai''), (6, CreateTask ''web3'')] init) 2 \<and>
   id_of (tasks (exec [(5, CreateTask ''ai''), (6, CreateTask ''web3'')] init) 0) = 0 \<and>
   unat (taskCounter (exec [(7, CreateTask ''x'')]
      (exec [(5, CreateTask ''ai''), (6, CreateTask ''web3'')] init))) = 3"
proof -
  let ?s = "exec [(5, CreateTask ''ai''), (6, CreateTask ''web3'')] init"
  have r: "reachable ?s" by (rule reachable_exec [OF reachable_init])
  have c: "unat (taskCounter ?s) = 2" by (simp add: run_simps)
  have u: "unat (2 :: uint256) = 2" by simp
  have k: "creates [(7 :: address, CreateTask ''x'')] = 1" by simp
  note T = task_ids_dense [OF r]
  from T have ids: "created_ids (events ?s) = ids_upto (unat (taskCounter ?s))" by blast
  have i12: "ids_upto 2 = [1, 2]" by (simp add: ids_upto_def upt_rec)
  from T have "1 \<le> unat (2 :: uint256) \<and> unat (2 :: uint256) \<le> unat (taskCounter ?s) \<longrightarrow>
      created ?s 2 \<and> id_of (tasks ?s 2) = 2" by blast
  then have two: "created ?s 2 \<and> id_of (tasks ?s 2) = 2" by (simp only: c u) simp
  from T have z: "id_of (tasks ?s 0) = 0" by blast
  from T have "unat (taskCounter ?s) + creates [(7 :: address, CreateTask ''x'')] < 2 ^ 256 \<longrightarrow>
      unat (taskCounter (exec [(7, CreateTask ''x'')] ?s)) =
      unat (taskCounter ?s) + creates [(7 :: address, CreateTask ''x'')]" by blast
  then have three: "unat (taskCounter (exec [(7, CreateTask ''x'')] ?s)) = 3"
    by (simp only: c k) simp
  from ids have ids': "created_ids (events ?s) = [1, 2]" by (simp only: c i12)
  from r c ids' two z three show ?thesis by (intro conjI) blast+
qed

text \<open>
  C3. For every topic string and caller, \<open>createTask\<close> called while the counter is below
  its maximum \<open>2^256 - 1\<close>, as it is after every history of fewer than \<open>2^256 - 1\<close>
  creations, increments the counter by one (without wrapping), stores under the new counter
  value a record whose id is that value, whose topic is the given topic, whose result is
  empty and whose requester is the caller, leaves every other record as it was, emits
  \<open>TaskCreated(id, topic, requester)\<close> and returns nothing. With the counter at its maximum
  the checked increment aborts the call with \<open>Panic(0x11)\<close>.
\<close>

theorem createTask_effect:
  "(taskCounter s \<noteq> - 1 \<longrightarrow>
      (\<exists>s'. createTask a t s = Inr s' \<and>
            taskCounter s' = taskCounter s + 1 \<and>
            unat (taskCounter s') = unat (taskCounter s) + 1 \<and>
            tasks s' (taskCounter s') =
              \<lparr>id_of = taskCounter s', topic = t, result = [], requester = a\<rparr> \<and>
            (\<forall>j. j \<noteq> taskCounter s' \<longrightarrow> tasks s' j = tasks s j) \<and>
            events s' = events s @ [TaskCreated (taskCounter s') t a])) \<and>
   (taskCounter s = - 1 \<longrightarrow> createTask a t s = Inl (Panic 17))"
proof (cases "taskCounter s = - 1")
  case True
  then show ?thesis by (simp add: createTask_Inl)
next
  case False
  then have "unat (taskCounter s + 1) = Suc (unat (taskCounter s))" by (rule unat_inc)
  with False show ?thesis by (simp add: createTask_Inr)
qed

text \<open>The first task of a fresh contract, and a call with the counter at its maximum.\<close>

theorem createTask_effect_witness:
  "taskCounter init \<noteq> - 1 \<and>
   (\<exists>s'. createTask 5 ''ai'' init = Inr s' \<and>
         taskCounter s' = 1 \<and>
         tasks s' 1 = \<lparr>id_of = 1, topic = ''ai'', result = [], requester = 5\<rparr> \<and>
         events s' = [TaskCreated 1 ''ai'' 5]) \<and>
   taskCounter (init\<lparr>taskCounter := - 1\<rparr>) = - 1 \<and>
   createTask 5 ''ai'' (init\<lparr>taskCounter := - 1\<rparr>) = Inl (Panic 17)"
proof -
  have c: "taskCounter init = 0" and e: "events init = []" by (simp_all add: init_def)
  have m: "taskCounter (init\<lparr>taskCounter := - 1\<rparr>) = - 1" by simp
  with createTask_effect [of "init\<lparr>taskCounter := - 1\<rparr>" 5 "''ai''"]
  have p: "createTask 5 ''ai'' (init\<lparr>taskCounter := - 1\<rparr>) = Inl (Panic 17)" by blast
  have n: "taskCounter init \<noteq> - 1" by (simp add: init_def)
  with createTask_effect [of init 5 "''ai''"]
  obtain s' where s': "createTask 5 ''ai'' init = Inr s'"
    "taskCounter s' = taskCounter init + 1"
    "tasks s' (taskCounter s') =
       \<lparr>id_of = taskCounter s', topic = ''ai'', result = [], requester = 5\<rparr>"
    "events s' = events init @ [TaskCreated (taskCounter s') ''ai'' 5]"
    by blast
  from s'(2) have one: "taskCounter s' = 1" by (simp add: c)
  from s'(3) have t: "tasks s' 1 = \<lparr>id_of = 1, topic = ''ai'', result = [], requester = 5\<rparr>"
    by (simp only: one)
  from s'(4) have ev: "events s' = [TaskCreated 1 ''ai'' 5]"
    by (simp only: one e append.simps)
  from s'(1) one t ev have x: "\<exists>s'. createTask 5 ''ai'' init = Inr s' \<and>
         taskCounter s' = 1 \<and>
         tasks s' 1 = \<lparr>id_of = 1, topic = ''ai'', result = [], requester = 5\<rparr> \<and>
         events s' = [TaskCreated 1 ''ai'' 5]" by blast
  from n x m p show ?thesis by (intro conjI)
qed

text \<open>
  C4. Once a task has been created, no later sequence of transactions changes its id, its
  topic or its requester; and every successful \<open>completeTask(id, result)\<close> changes nothing
  but the result field of task \<open>id\<close>: every other record and the counter stay as they were.
\<close>

theorem topic_requester_frame:
  assumes "reachable s" and "created s i"
  shows "id_of (tasks (exec txs s) i) = id_of (tasks s i) \<and>
         topic (tasks (exec txs s) i) = topic (tasks s i) \<and>
         requester (tasks (exec txs s) i) = requester (tasks s i) \<and>
         (\<forall>j r s'. completeTask j r s = Inr s' \<longrightarrow>
            tasks s' j = (tasks s j)\<lparr>result := r\<rparr> \<and>
            (\<forall>k. k \<noteq> j \<longrightarrow> tasks s' k = tasks s k) \<and>
            taskCounter s' = taskCounter s)"
proof -
  have "tasks s' j = (tasks s j)\<lparr>result := r\<rparr> \<and>
        (\<forall>k. k \<noteq> j \<longrightarrow> tasks s' k = tasks s k) \<and> taskCounter s' = taskCounter s"
    if ok: "completeTask j r s = Inr s'" for j r s'
  proof -
    from ok have "id_of (tasks s j) \<noteq> 0" by (auto simp: completeTask_Inl)
    with ok show ?thesis by (auto simp: completeTask_Inr)
  qed
  with exec_frame [OF assms, of txs] show ?thesis by blast
qed

text \<open>Task 1 keeps its topic and requester through a completion, a second creation and a
  completion of the other task; the completion of task 2 leaves task 1 alone.\<close>

theorem topic_requester_frame_witness:
  "reachable (exec [(5, CreateTask ''ai'')] init) \<and>
   created (exec [(5, CreateTask ''ai'')] init) 1 \<and>
   topic (tasks (exec [(9, CompleteTask 1 ''done''), (6, CreateTask ''web3''),
                       (9, CompleteTask 2 ''more'')]
                  (exec [(5, CreateTask ''ai'')] init)) 1) = ''ai'' \<and>
   requester (tasks (exec [(9, CompleteTask 1 ''done''), (6, CreateTask ''web3''),
                       (9, CompleteTask 2 ''more'')]
                  (exec [(5, CreateTask ''ai'')] init)) 1) = 5 \<and>
   id_of (tasks (exec [(9, CompleteTask 1 ''done''), (6, CreateTask ''web3''),
                       (9, CompleteTask 2 ''more'')]
                  (exec [(5, CreateTask ''ai'')] init)) 1) = 1 \<and>
   (\<exists>s'. completeTask 1 ''done'' (exec [(5, CreateTask ''ai'')] init) = Inr s' \<and>
         tasks s' 2 = tasks (exec [(5, CreateTask ''ai'')] init) 2 \<and>
         taskCounter s' = taskCounter (exec [(5, CreateTask ''ai'')] init))"
proof -
  let ?s = "exec [(5, CreateTask ''ai'')] init"
  let ?txs = "[(9, CompleteTask 1 ''done''), (6, CreateTask ''web3''), (9, CompleteTask 2 ''more'')]"
  have r: "reachable ?s" by (rule reachable_exec [OF reachable_init])
  have c: "created ?s 1" by (simp add: run_simps)
  have v: "topic (tasks ?s 1) = ''ai''" "requester (tasks ?s 1) = 5" "id_of (tasks ?s 1) = 1"
    by (simp_all add: run_simps)
  note T = topic_requester_frame [OF r c, of ?txs]
  from T have "topic (tasks (exec ?txs ?s) 1) = topic (tasks ?s 1)" by blast
  then have t: "topic (tasks (exec ?txs ?s) 1) = ''ai''" by (simp only: v)
  from T have "requester (tasks (exec ?txs ?s) 1) = requester (tasks ?s 1)" by blast
  then have q: "requester (tasks (exec ?txs ?s) 1) = 5" by (simp only: v)
  from T have "id_of (tasks (exec ?txs ?s) 1) = id_of (tasks ?s 1)" by blast
  then have d: "id_of (tasks (exec ?txs ?s) 1) = 1" by (simp only: v)
  have "id_of (tasks ?s 1) \<noteq> 0" by (simp only: v) simp
  then obtain s' where ok: "completeTask 1 ''done'' ?s = Inr s'"
    using completeTask_Inr [of ?s 1 "''done''"] by blast
  have n: "(2 :: uint256) \<noteq> 1" by simp
  from T ok have "(\<forall>k. k \<noteq> 1 \<longrightarrow> tasks s' k = tasks ?s k) \<and> taskCounter s' = taskCounter ?s"
    by blast
  with n have "tasks s' 2 = tasks ?s 2 \<and> taskCounter s' = taskCounter ?s" by blast
  with ok have e: "\<exists>s'. completeTask 1 ''done'' ?s = Inr s' \<and>
      tasks s' 2 = tasks ?s 2 \<and> taskCounter s' = taskCounter ?s" by blast
  from r c t q d e show ?thesis by (intro conjI)
qed

text \<open>
  C5. For every existing task whose result is already non-empty, a further
  \<open>completeTask(id, r2)\<close> is not rejected: it succeeds, overwrites the stored result with
  \<open>r2\<close> and emits \<open>TaskCompleted(id, r2)\<close> again.
\<close>

theorem completeTask_overwrites:
  assumes "reachable s" and "created s i" and "status_of (tasks s i) = Completed"
  shows "\<exists>s'. completeTask i r2 s = Inr s' \<and>
              step (a, CompleteTask i r2) s = s' \<and>
              result (tasks s' i) = r2 \<and>
              events s' = events s @ [TaskCompleted i r2]"
proof -
  from assms(1) have "ledger_inv s" by (rule reachable_inv)
  with assms(2) have "id_of (tasks s i) \<noteq> 0" by (simp add: created_iff_id)
  then show ?thesis by (simp add: completeTask_Inr step_complete)
qed

text \<open>A task completed with "first" is completed again with "second".\<close>

theorem completeTask_overwrites_witness:
  "reachable (exec [(5, CreateTask ''ai''), (9, CompleteTask 1 ''first'')] init) \<and>
   created (exec [(5, CreateTask ''ai''), (9, CompleteTask 1 ''first'')] init) 1 \<and>
   result (tasks (exec [(5, CreateTask ''ai''), (9, CompleteTask 1 ''first'')] init) 1) = ''first'' \<and>
   (\<exists>s'. completeTask 1 ''second''
           (exec [(5, CreateTask ''ai''), (9, CompleteTask 1 ''first'')] init) = Inr s' \<and>
         result (tasks s' 1) = ''second'')"
proof -
  let ?s = "exec [(5, CreateTask ''ai''), (9, CompleteTask 1 ''first'')] init"
  have r: "reachable ?s" by (rule reachable_exec [OF reachable_init])
  have c: "created ?s 1" by (simp add: run_simps)
  have v: "result (tasks ?s 1) = ''first''" by (simp add: run_simps)
  then have st: "status_of (tasks ?s 1) = Completed" by (simp add: status_of_def)
  from completeTask_overwrites [OF r c st, of "''second''" 9]
  have "\<exists>s'. completeTask 1 ''second'' ?s = Inr s' \<and> result (tasks s' 1) = ''second''"
    by blast
  with r c v show ?thesis by (intro conjI)
qed

text \<open>
  C6, as the code has it. A created task is never deleted: it stays created, with its id,
  through every sequence of transactions. Its status is decided by the last successful
  \<open>completeTask\<close> on it: a transaction leaves the status as it was unless it is a
  \<open>completeTask\<close> on this very task, which makes it Completed when the submitted result is
  non-empty and Pending when it is empty. So a Completed task stays Completed through every
  sequence of transactions that contains no \<open>completeTask\<close> with an empty result on it.
\<close>

theorem status_lifecycle:
  assumes "reachable s" and "created s i"
  shows "created (exec txs s) i \<and> id_of (tasks (exec txs s) i) = i \<and>
         status_of (tasks (step (a, cl) s) i) =
           (case cl of
              CreateTask t \<Rightarrow> status_of (tasks s i)
            | CompleteTask j r \<Rightarrow>
                if j = i then (if r = [] then Pending else Completed)
                else status_of (tasks s i)) \<and>
         (status_of (tasks s i) = Completed \<and> (\<forall>b. (b, CompleteTask i []) \<notin> set txs) \<longrightarrow>
            status_of (tasks (exec txs s) i) = Completed)"
proof -
  from assms(1) have inv: "ledger_inv s" by (rule reachable_inv)
  from inv assms(2) have "i \<noteq> 0 \<and> i \<le> taskCounter s" by (simp add: created_iff_range)
  with inv have "id_of (tasks s i) = i" by (simp add: ledger_inv_in)
  with exec_frame [OF assms, of txs]
  have 1: "created (exec txs s) i \<and> id_of (tasks (exec txs s) i) = i" by simp
  have 2: "status_of (tasks (step (a, cl) s) i) =
           (case cl of
              CreateTask t \<Rightarrow> status_of (tasks s i)
            | CompleteTask j r \<Rightarrow>
                if j = i then (if r = [] then Pending else Completed)
                else status_of (tasks s i))"
    using step_result [OF inv assms(2), of a cl]
    by (simp add: status_of_def split: call.splits)
  have 3: "status_of (tasks (exec txs s) i) = Completed"
    if "status_of (tasks s i) = Completed" "\<forall>b. (b, CompleteTask i []) \<notin> set txs"
  proof -
    from that(1) have "result (tasks s i) \<noteq> []" by (simp add: status_of_def split: if_splits)
    with assms that(2) have "result (tasks (exec txs s) i) \<noteq> []"
      by (intro exec_stays_completed)
    then show ?thesis by (simp add: status_of_def)
  qed
  from 1 2 3 show ?thesis by blast
qed

text \<open>A completed task stays completed while another task is created and completed.\<close>

theorem status_lifecycle_witness:
  "reachable (exec [(5, CreateTask ''ai''), (9, CompleteTask 1 ''done'')] init) \<and>
   created (exec [(5, CreateTask ''ai''), (9, CompleteTask 1 ''done'')] init) 1 \<and>
   status_of (tasks (exec [(5, CreateTask ''ai''), (9, CompleteTask 1 ''done'')] init) 1) = Completed \<and>
   status_of (tasks (exec [(6, CreateTask ''web3''), (9, CompleteTask 2 ''more'')]
                (exec [(5, CreateTask ''ai''), (9, CompleteTask 1 ''done'')] init)) 1) = Completed \<and>
   created (exec [(6, CreateTask ''web3''), (9, CompleteTask 2 ''more'')]
                (exec [(5, CreateTask ''ai''), (9, CompleteTask 1 ''done'')] init)) 1"
proof -
  let ?s = "exec [(5, CreateTask ''ai''), (9, CompleteTask 1 ''done'')] init"
  let ?txs = "[(6, CreateTask ''web3''), (9, CompleteTask 2 ''more'')]"
  have r: "reachable ?s" by (rule reachable_exec [OF reachable_init])
  have c: "created ?s 1" by (simp add: run_simps)
  have st: "status_of (tasks ?s 1) = Completed" by (simp add: run_simps status_of_def)
  have no: "\<forall>b. (b, CompleteTask 1 []) \<notin> set ?txs" by simp
  note T = status_lifecycle [OF r c, of ?txs]
  from T st no have k: "status_of (tasks (exec ?txs ?s) 1) = Completed" by blast
  from T have d: "created (exec ?txs ?s) 1" by blast
  from r c st k d show ?thesis by (intro conjI)
qed

text \<open>
  C6 as stated (a Completed task never returns to Pending) fails: \<open>completeTask\<close> has no
  guard against a second call, and a second call with the empty string empties the result.
\<close>

theorem completed_returns_to_pending_counterexample:
  "status_of (tasks (exec [(5, CreateTask ''ai''), (9, CompleteTask 1 ''done'')] init) 1) = Completed \<and>
   status_of (tasks (exec [(5, CreateTask ''ai''), (9, CompleteTask 1 ''done''),
                           (9, CompleteTask 1 [])] init) 1) = Pending"
  by (simp add: run_simps status_of_def)

text \<open>
  C7. For every id that is 0 or for which no task was ever created, the Query Service's
  \<open>getTask\<close> fails with \<open>NotFound\<close>, and for no other id; in particular \<open>getTask(0)\<close>
  fails with \<open>NotFound\<close> in every reachable state. For a created id it returns the stored
  record, which carries that id.
\<close>

theorem query_getTask_not_found:
  assumes "reachable s"
  shows "(i = 0 \<or> \<not> created s i \<longrightarrow> query_getTask i s = Inl NotFound) \<and>
         query_getTask 0 s = Inl NotFound \<and>
         (query_getTask i s = Inl NotFound \<longleftrightarrow> i = 0 \<or> \<not> created s i) \<and>
         (created s i \<longrightarrow> query_getTask i s = Inr (tasks s i) \<and> id_of (tasks s i) = i)"
proof -
  from assms have inv: "ledger_inv s" by (rule reachable_inv)
  have c: "created s j \<longleftrightarrow> id_of (tasks s j) \<noteq> 0" for j
    using inv by (rule created_iff_id)
  have z: "\<not> created s 0" using inv by (simp add: created_iff_range)
  have q: "query_getTask j s = (if id_of (tasks s j) \<noteq> 0 then Inr (tasks s j) else Inl NotFound)"
    for j by (simp add: query_getTask_def getTask_def)
  have d: "id_of (tasks s i) = i" if "created s i"
  proof -
    from that inv have "i \<noteq> 0 \<and> i \<le> taskCounter s" by (simp add: created_iff_range)
    with inv show ?thesis by (simp add: ledger_inv_in)
  qed
  have 1: "query_getTask i s = Inl NotFound \<longleftrightarrow> i = 0 \<or> \<not> created s i"
    using z c [of i] by (auto simp: q)
  have 2: "query_getTask 0 s = Inl NotFound" using z c [of 0] by (simp add: q)
  have 3: "query_getTask i s = Inr (tasks s i) \<and> id_of (tasks s i) = i" if "created s i"
    using that d c [of i] by (simp add: q)
  from 1 2 3 show ?thesis by blast
qed

text \<open>With one task created: ids 0 and 999 are not found, id 1 gives the task.\<close>

theorem query_getTask_not_found_witness:
  "reachable (exec [(5, CreateTask ''ai'')] init) \<and>
   query_getTask 0 (exec [(5, CreateTask ''ai'')] init) = Inl NotFound \<and>
   \<not> created (exec [(5, CreateTask ''ai'')] init) 999 \<and>
   query_getTask 999 (exec [(5, CreateTask ''ai'')] init) = Inl NotFound \<and>
   created (exec [(5, CreateTask ''ai'')] init) 1 \<and>
   query_getTask 1 (exec [(5, CreateTask ''ai'')] init) =
     Inr \<lparr>id_of = 1, topic = ''ai'', result = [], requester = 5\<rparr>"
proof -
  let ?s = "exec [(5, CreateTask ''ai'')] init"
  have r: "reachable ?s" by (rule reachable_exec [OF reachable_init])
  have c: "created ?s 1" and n: "\<not> created ?s 999" by (simp_all add: run_simps)
  have v: "tasks ?s 1 = \<lparr>id_of = 1, topic = ''ai'', result = [], requester = 5\<rparr>"
    by (simp add: run_simps)
  note T = query_getTask_not_found [OF r]
  from T [of 0] have g0: "query_getTask 0 ?s = Inl NotFound" by blast
  from T [of 999] n have g9: "query_getTask 999 ?s = Inl NotFound" by blast
  from T [of 1] c have "query_getTask 1 ?s = Inr (tasks ?s 1)" by blast
  then have g1: "query_getTask 1 ?s = Inr \<lparr>id_of = 1, topic = ''ai'', result = [], requester = 5\<rparr>"
    by (simp only: v)
  from r g0 n g9 c g1 show ?thesis by (intro conjI)
qed

text \<open>
  C8, as the code has it. Every stored task's topic is exactly the string supplied at its
  creation, empty or not: \<open>createTask\<close> does not validate the topic. A call with any topic
  \<open>t\<close>, the empty one included, fails only where it fails for every topic (counter overflow);
  where it succeeds it stores \<open>t\<close> under the new id and logs it, and no later transaction
  changes it. So after any list of transactions the topic of the \<open>k\<close>-th task created by it
  is the topic of its \<open>k\<close>-th \<open>createTask\<close> call, and the topic of every created task is the
  one in its \<open>TaskCreated\<close> event.
\<close>

theorem topic_is_as_supplied:
  assumes "reachable s"
  shows "(created s i \<longrightarrow>
            TaskCreated i (topic (tasks s i)) (requester (tasks s i)) \<in> set (events s)) \<and>
         (\<forall>e. createTask a [] s = Inl e \<longleftrightarrow> createTask a t s = Inl e) \<and>
         (taskCounter s \<noteq> - 1 \<longrightarrow>
            (\<exists>s'. createTask a t s = Inr s' \<and> reachable s' \<and>
                  created s' (taskCounter s') \<and>
                  topic (tasks s' (taskCounter s')) = t \<and>
                  events s' = events s @ [TaskCreated (taskCounter s') t a] \<and>
                  (\<forall>txs. topic (tasks (exec txs s') (taskCounter s')) = t))) \<and>
         (\<forall>txs k. unat (taskCounter s) + creates txs < 2 ^ 256 \<and> k < creates txs \<longrightarrow>
            created (exec txs s) (of_nat (unat (taskCounter s) + Suc k)) \<and>
            topic (tasks (exec txs s) (of_nat (unat (taskCounter s) + Suc k))) = supplied txs ! k)"
proof -
  from assms have inv: "ledger_inv s" by (rule reachable_inv)
  have 1: "TaskCreated i (topic (tasks s i)) (requester (tasks s i)) \<in> set (events s)"
    if "created s i"
  proof -
    from that inv have "i \<noteq> 0 \<and> i \<le> taskCounter s" by (simp add: created_iff_range)
    with inv show ?thesis by (simp add: ledger_inv_in)
  qed
  have 2: "createTask a [] s = Inl e \<longleftrightarrow> createTask a t s = Inl e" for e
    by (simp only: createTask_cases)
  have 3: "\<exists>s'. createTask a t s = Inr s' \<and> reachable s' \<and>
                  created s' (taskCounter s') \<and> topic (tasks s' (taskCounter s')) = t \<and>
                  events s' = events s @ [TaskCreated (taskCounter s') t a] \<and>
                  (\<forall>txs. topic (tasks (exec txs s') (taskCounter s')) = t)"
    if "taskCounter s \<noteq> - 1"
  proof -
    let ?s' = "s\<lparr>taskCounter := taskCounter s + 1,
            tasks := (tasks s)(taskCounter s + 1 :=
                       \<lparr>id_of = taskCounter s + 1, topic = t, result = [], requester = a\<rparr>),
            events := events s @ [TaskCreated (taskCounter s + 1) t a]\<rparr>"
    from that have ok: "createTask a t s = Inr ?s'" by (rule createTask_Inr)
    with assms have r': "reachable ?s'" by (rule reachable_create)
    have c': "created ?s' (taskCounter ?s')" by (simp add: created_def)
    have t': "topic (tasks ?s' (taskCounter ?s')) = t" by simp
    have e': "events ?s' = events s @ [TaskCreated (taskCounter ?s') t a]" by simp
    have "topic (tasks (exec txs ?s') (taskCounter ?s')) = t" for txs
      using exec_frame [OF r' c', of txs] t' by (simp only:)
    with ok r' c' t' e' show ?thesis by blast
  qed
  have 4: "created (exec txs s) (of_nat (unat (taskCounter s) + Suc k)) \<and>
           topic (tasks (exec txs s) (of_nat (unat (taskCounter s) + Suc k))) = supplied txs ! k"
    if "unat (taskCounter s) + creates txs < 2 ^ 256 \<and> k < creates txs" for txs k
    using assms that by (intro exec_supplied) blast+
  from 1 2 3 4 show ?thesis by blast
qed

text \<open>On the fresh contract an empty topic and then "web3" are supplied: task 1 is stored
  with the empty topic and task 2 with "web3", and both stay so.\<close>

theorem topic_is_as_supplied_witness:
  "reachable init \<and> taskCounter init \<noteq> - 1 \<and>
   (\<exists>s'. createTask 5 ''web3'' init = Inr s' \<and>
         topic (tasks s' (taskCounter s')) = ''web3'' \<and>
         topic (tasks (exec [(9, CompleteTask 1 ''done'')] s') (taskCounter s')) = ''web3'') \<and>
   (\<exists>s'. createTask 5 [] init = Inr s' \<and> topic (tasks s' (taskCounter s')) = []) \<and>
   topic (tasks (exec [(5, CreateTask []), (6, CreateTask ''web3'')] init) 1) = [] \<and>
   topic (tasks (exec [(5, CreateTask []), (6, CreateTask ''web3'')] init) 2) = ''web3'' \<and>
   created (exec [(5, CreateTask ''ai'')] init) 1 \<and>
   TaskCreated 1 (topic (tasks (exec [(5, CreateTask ''ai'')] init) 1))
        (requester (tasks (exec [(5, CreateTask ''ai'')] init) 1))
     \<in> set (events (exec [(5, CreateTask ''ai'')] init))"
proof -
  let ?s = "exec [(5, CreateTask ''ai'')] init"
  let ?txs = "[(5 :: address, CreateTask []), (6, CreateTask ''web3'')]"
  have n: "taskCounter init \<noteq> - 1" by (simp add: init_def)
  have z: "unat (taskCounter init) = 0" by (simp add: init_def)
  from topic_is_as_supplied [OF reachable_init, of 0 5 "''web3''"] n
  have e1: "\<exists>s'. createTask 5 ''web3'' init = Inr s' \<and>
         topic (tasks s' (taskCounter s')) = ''web3'' \<and>
         topic (tasks (exec [(9, CompleteTask 1 ''done'')] s') (taskCounter s')) = ''web3''"
    by blast
  from topic_is_as_supplied [OF reachable_init, of 0 5 "[]"] n
  have e2: "\<exists>s'. createTask 5 [] init = Inr s' \<and> topic (tasks s' (taskCounter s')) = []"
    by blast
  have k: "creates ?txs = 2" "supplied ?txs ! 0 = []" "supplied ?txs ! 1 = ''web3''"
    by simp_all
  have b: "unat (taskCounter init) + creates ?txs < 2 ^ 256" by (simp only: z k) simp
  have i1: "(of_nat (unat (taskCounter init) + Suc 0) :: uint256) = 1"
    and i2: "(of_nat (unat (taskCounter init) + Suc 1) :: uint256) = 2"
    by (simp_all add: z)
  have k0: "0 < creates ?txs" and k1: "1 < creates ?txs" by simp_all
  note H = topic_is_as_supplied [OF reachable_init, of 0 5 "[]"]
  from H b k0 have "topic (tasks (exec ?txs init) (of_nat (unat (taskCounter init) + Suc 0))) =
      supplied ?txs ! 0" by blast
  then have t1: "topic (tasks (exec ?txs init) 1) = []" by (simp only: i1 k)
  from H b k1 have "topic (tasks (exec ?txs init) (of_nat (unat (taskCounter init) + Suc 1))) =
      supplied ?txs ! 1" by blast
  then have t2: "topic (tasks (exec ?txs init) 2) = ''web3''" by (simp only: i2 k)
  have r: "reachable ?s" by (rule reachable_exec [OF reachable_init])
  have c: "created ?s 1" by (simp add: run_simps)
  from topic_is_as_supplied [OF r, of 1 5 "[]"] c
  have m: "TaskCreated 1 (topic (tasks ?s 1)) (requester (tasks ?s 1)) \<in> set (events ?s)"
    by blast
  from reachable_init n e1 e2 t1 t2 c m show ?thesis by (intro conjI)
qed

text \<open>
  C8 as stated (an empty topic is rejected, every stored topic is non-empty) fails:
  \<open>createTask\<close> with the empty string succeeds and task 1 is stored with an empty topic.
\<close>

theorem empty_topic_accepted_counterexample:
  "createTask 5 [] init = Inr (exec [(5, CreateTask [])] init) \<and>
   created (exec [(5, CreateTask [])] init) 1 \<and>
   id_of (tasks (exec [(5, CreateTask [])] init) 1) = 1 \<and>
   topic (tasks (exec [(5, CreateTask [])] init) 1) = []"
  by (simp add: run_simps)

text \<open>
  C10. Whenever \<open>completeTask(id, result)\<close> fails, it fails because the task does not exist
  (the stored id is 0), and the transaction leaves the whole contract state as it was: the
  counter, every task record and the event log, so no \<open>TaskCompleted\<close> event is emitted.
\<close>

theorem completeTask_failure_changes_nothing:
  assumes "completeTask i r s = Inl e"
  shows "e = Revert ''Task does not exist'' \<and> id_of (tasks s i) = 0 \<and>
         step (a, CompleteTask i r) s = s \<and>
         taskCounter (step (a, CompleteTask i r) s) = taskCounter s \<and>
         tasks (step (a, CompleteTask i r) s) = tasks s \<and>
         events (step (a, CompleteTask i r) s) = events s \<and>
         exec ((a, CompleteTask i r) # txs) s = exec txs s"
proof -
  from assms have z: "id_of (tasks s i) = 0"
    by (rule contrapos_pp) (simp add: completeTask_Inr)
  with assms have "e = Revert ''Task does not exist''" by (simp add: completeTask_Inl)
  moreover from z have "step (a, CompleteTask i r) s = s" by (simp add: step_complete)
  ultimately show ?thesis using z by simp
qed

text \<open>Completing task 1 on the fresh contract fails and leaves the contract fresh.\<close>

theorem completeTask_failure_changes_nothing_witness:
  "completeTask 1 ''done'' init = Inl (Revert ''Task does not exist'') \<and>
   step (9, CompleteTask 1 ''done'') init = init \<and>
   events (step (9, CompleteTask 1 ''done'') init) = [] \<and>
   taskCounter (step (9, CompleteTask 1 ''done'') init) = 0"
proof -
  have f: "completeTask 1 ''done'' init = Inl (Revert ''Task does not exist'')"
    by (simp add: completeTask_def init_def empty_task_def)
  have i: "events init = []" "taskCounter init = 0" by (simp_all add: init_def)
  note T = completeTask_failure_changes_nothing [OF f, of 9 "[]"]
  from T have s: "step (9, CompleteTask 1 ''done'') init = init" by blast
  from T have "events (step (9, CompleteTask 1 ''done'') init) = events init" by blast
  then have e: "events (step (9, CompleteTask 1 ''done'') init) = []" by (simp only: i)
  from T have "taskCounter (step (9, CompleteTask 1 ''done'') init) = taskCounter init" by blast
  then have c: "taskCounter (step (9, CompleteTask 1 ''done'') init) = 0" by (simp only: i)
  from f s e c show ?thesis by (intro conjI)
qed

end
